theory Spec2Isabelle
  imports Complex_Main
begin

section \<open>The snake game of \<^verbatim>\<open>src/snake.js\<close>: data model\<close>

text \<open>
  A cell is the object \<^verbatim>\<open>{x, y}\<close> of the source, written as the pair \<open>(x, y)\<close>.
  The objects are never mutated after they are built (\<^verbatim>\<open>dir = { ...nextDir }\<close> copies),
  so no aliasing is visible. Grid coordinates and direction components are integers, on
  which the arithmetic of JavaScript numbers is exact. Times and the accumulator are
  binary64 numbers, which are real numbers; every operation on them that can round is
  written with the rounding function of the host, below.
\<close>

type_synonym cell = "int \<times> int"

text \<open>
  \<^verbatim>\<open>Math.random()\<close> is modelled by the sequence of values its future calls return:
  \<open>r 0\<close> is the next one. Every call shifts the sequence by one.
\<close>

type_synonym rng = "nat \<Rightarrow> real"

text \<open>
  What the page and the JavaScript engine supply: the pixel width and height of the canvas
  element, and the rounding \<open>rnd\<close> of a real number to a binary64 number. An arithmetic
  operation of the engine returns the rounded exact result, so \<^verbatim>\<open>a + b\<close> on numbers is
  \<open>rnd (a + b)\<close>, and likewise for \<^verbatim>\<open>-\<close>, \<^verbatim>\<open>*\<close> and \<^verbatim>\<open>/\<close>. The rounding is a
  parameter: nothing is assumed of it except where a statement says so.
\<close>

record host =
  width :: nat
  height :: nat
  rnd :: "real \<Rightarrow> real"

definition CELL :: int where
  "CELL = 20"

text \<open>
  The width is a non-negative integer below \<open>2^32\<close>, so \<^verbatim>\<open>Math.floor(canvas.width / CELL)\<close>
  is the integer quotient.
\<close>

definition COLS :: "host \<Rightarrow> int" where
  "COLS env = int (width env) div CELL"

definition ROWS :: "host \<Rightarrow> int" where
  "ROWS env = int (height env) div CELL"

definition SPEED :: real where
  "SPEED = 8"

text \<open>\<^verbatim>\<open>const step = 1 / SPEED\<close>: one eighth is a binary64 number, so the quotient is exact.\<close>

definition step :: real where
  "step = 1 / SPEED"

text \<open>The module-level variables of the game.\<close>

record game =
  snake :: "cell list"
  dir :: cell
  nextDir :: cell
  food :: "cell option"
  score :: nat
  running :: bool
  paused :: bool
  gameOver :: bool
  accumulator :: real
  lastTime :: real

text \<open>Their values when the script is loaded, before the first \<^verbatim>\<open>initGame()\<close>.\<close>

definition globals0 :: game where
  "globals0 = \<lparr>snake = [], dir = (1, 0), nextDir = (1, 0), food = None, score = 0,
     running = False, paused = False, gameOver = False, accumulator = 0, lastTime = 0\<rparr>"

text \<open>
  A call either returns, throws or runs forever. \<open>None\<close> is a call that never returns;
  \<open>Some (Inl e)\<close> is a thrown exception; \<open>Some (Inr v)\<close> is a normal return.
  The only exception the modelled functions can throw is the \<^verbatim>\<open>TypeError\<close> of
  \<^verbatim>\<open>head.x\<close> when \<^verbatim>\<open>snake[0]\<close> is \<^verbatim>\<open>undefined\<close>.
\<close>

datatype error = TypeError

section \<open>Food placement\<close>

text \<open>
  One round of the \<^verbatim>\<open>do ... while\<close> loop of \<^verbatim>\<open>placeFood\<close> draws
  \<^verbatim>\<open>fx = Math.floor(Math.random() * COLS)\<close> and \<^verbatim>\<open>fy = Math.floor(Math.random() * ROWS)\<close>,
  consuming two random numbers. Each product is rounded before the floor is taken.
\<close>

definition draw :: "host \<Rightarrow> rng \<Rightarrow> cell" where
  "draw env r = (\<lfloor>rnd env (r 0 * real_of_int (COLS env))\<rfloor>,
                 \<lfloor>rnd env (r 1 * real_of_int (ROWS env))\<rfloor>)"

definition advance :: "rng \<Rightarrow> rng" where
  "advance r = (\<lambda>n. r (n + 2))"

text \<open>
  The loop repeats while the drawn cell is in \<^verbatim>\<open>occupied\<close>. The set of strings
  \<^verbatim>\<open>`${s.x},${s.y}`\<close> is the set of the snake's cells, the encoding being injective
  on pairs of integers. The loop has no bound, so it is a partial function.
\<close>

partial_function (option) placeFood_loop :: "host \<Rightarrow> cell set \<Rightarrow> rng \<Rightarrow> (cell \<times> rng) option" where
  "placeFood_loop env occupied r =
     (if draw env r \<in> occupied then placeFood_loop env occupied (advance r)
      else Some (draw env r, advance r))"

definition placeFood :: "host \<Rightarrow> rng \<Rightarrow> game \<Rightarrow> (rng \<times> game) option" where
  "placeFood env r s =
     (case placeFood_loop env (set (snake s)) r of
        None \<Rightarrow> None
      | Some (f, r') \<Rightarrow> Some (r', s\<lparr>food := Some f\<rparr>))"

section \<open>Initialisation, pause and direction intents\<close>

text \<open>
  \<^verbatim>\<open>performance.now()\<close> is the argument \<open>now\<close>. \<^verbatim>\<open>COLS\<close> is a non-negative
  integer, so \<^verbatim>\<open>Math.floor(COLS / 2)\<close> is \<open>COLS div 2\<close>. Drawing, logging and
  \<^verbatim>\<open>requestAnimationFrame\<close> touch none of the variables of the game and are left out.
\<close>

definition initGame :: "host \<Rightarrow> rng \<Rightarrow> real \<Rightarrow> game \<Rightarrow> (rng \<times> game) option" where
  "initGame env r now s =
     (let s1 = s\<lparr>snake := [(COLS env div 2 - 1, ROWS env div 2),
                            (COLS env div 2 - 2, ROWS env div 2),
                            (COLS env div 2 - 3, ROWS env div 2)],
                  dir := (1, 0), nextDir := (1, 0), score := 0,
                  paused := False, gameOver := False\<rparr>
      in case placeFood env r s1 of
           None \<Rightarrow> None
         | Some (r', s2) \<Rightarrow> Some (r', s2\<lparr>running := True, accumulator := 0, lastTime := now\<rparr>))"

definition restartGame :: "host \<Rightarrow> rng \<Rightarrow> real \<Rightarrow> game \<Rightarrow> (rng \<times> game) option" where
  "restartGame env r now s = initGame env r now s"

definition togglePause :: "real \<Rightarrow> game \<Rightarrow> game" where
  "togglePause now s =
     (if gameOver s then s
      else let s1 = s\<lparr>paused := \<not> paused s\<rparr>
           in if \<not> paused s1 then s1\<lparr>lastTime := now\<rparr> else s1)"

text \<open>
  The table \<^verbatim>\<open>map\<close> of \<^verbatim>\<open>setDirection\<close>. The callers (the key handler and the
  swipe handler) pass one of its four keys; a string that names no property of the table
  finds nothing and the call returns at once. Names that an object literal inherits from
  its prototype (such as \<^verbatim>\<open>toString\<close>) are not modelled: no caller passes them.
\<close>

definition direction_map :: "(string \<times> cell) list" where
  "direction_map = [(''up'', (0, -1)), (''down'', (0, 1)), (''left'', (-1, 0)), (''right'', (1, 0))]"

definition setDirection :: "string \<Rightarrow> game \<Rightarrow> game" where
  "setDirection action s =
     (case map_of direction_map action of
        None \<Rightarrow> s
      | Some nd \<Rightarrow>
          if fst nd = - fst (dir s) \<and> snd nd = - snd (dir s) then s
          else s\<lparr>nextDir := nd\<rparr>)"

section \<open>The simulation step\<close>

definition update :: "host \<Rightarrow> rng \<Rightarrow> game \<Rightarrow> (error + rng \<times> game) option" where
  "update env r s =
     (if \<not> running s \<or> paused s \<or> gameOver s then Some (Inr (r, s))
      else
        let s1 = s\<lparr>dir := nextDir s\<rparr> in
        case snake s1 of
          [] \<Rightarrow> Some (Inl TypeError)
        | head # _ \<Rightarrow>
            let newHead = (fst head + fst (dir s1), snd head + snd (dir s1)) in
            if fst newHead < 0 \<or> fst newHead \<ge> COLS env \<or> snd newHead < 0 \<or> snd newHead \<ge> ROWS env
            then Some (Inr (r, s1\<lparr>gameOver := True, running := False\<rparr>))
            else if list_ex (\<lambda>segment. fst segment = fst newHead \<and> snd segment = snd newHead) (snake s1)
            then Some (Inr (r, s1\<lparr>gameOver := True, running := False\<rparr>))
            else
              let s2 = s1\<lparr>snake := newHead # snake s1\<rparr> in
              if food s2 = Some newHead
              then map_option Inr (placeFood env r (s2\<lparr>score := score s2 + 1\<rparr>))
              else Some (Inr (r, s2\<lparr>snake := butlast (snake s2)\<rparr>)))"

section \<open>The fixed-timestep scheduler\<close>

text \<open>
  The loop \<^verbatim>\<open>while (accumulator >= step) { update(); accumulator -= step; }\<close>.
  With rounding, the subtraction need not make the accumulator smaller (a very large
  accumulator absorbs \<open>step\<close>), so the loop is a partial function: \<open>None\<close> is a loop
  that never ends.
\<close>

partial_function (option) drain :: "host \<Rightarrow> rng \<Rightarrow> game \<Rightarrow> (error + rng \<times> game) option" where
  "drain env r s =
     (if accumulator s \<ge> step then
        (case update env r s of
           None \<Rightarrow> None
         | Some (Inl e) \<Rightarrow> Some (Inl e)
         | Some (Inr (r', s')) \<Rightarrow>
             drain env r' (s'\<lparr>accumulator := rnd env (accumulator s' - step)\<rparr>))
      else Some (Inr (r, s)))"

text \<open>
  \<^verbatim>\<open>const dt = (time - lastTime) / 1000; lastTime = time; accumulator += dt;\<close> then the
  loop. Every operation rounds its exact result.
\<close>

definition gameLoop :: "host \<Rightarrow> rng \<Rightarrow> real \<Rightarrow> game \<Rightarrow> (error + rng \<times> game) option" where
  "gameLoop env r time s =
     (if \<not> running s then Some (Inr (r, s))
      else if paused s then Some (Inr (r, s))
      else
        let dt = rnd env (rnd env (time - lastTime s) / 1000);
            s1 = s\<lparr>lastTime := time\<rparr>;
            s2 = s1\<lparr>accumulator := rnd env (accumulator s1 + dt)\<rparr>
        in drain env r s2)"

section \<open>Notions the properties are stated with\<close>

text \<open>The grid \<open>[0,COLS) \<times> [0,ROWS)\<close>: the negation of the wall test of \<^verbatim>\<open>update\<close>.\<close>

definition inside :: "host \<Rightarrow> cell \<Rightarrow> bool" where
  "inside env c = (0 \<le> fst c \<and> fst c < COLS env \<and> 0 \<le> snd c \<and> snd c < ROWS env)"

text \<open>
  The cell a tick moves the head to: the head plus the committed direction, which is
  the queued direction \<^verbatim>\<open>nextDir\<close> at the time of the call.
\<close>

definition newHead :: "cell \<Rightarrow> game \<Rightarrow> cell" where
  "newHead h s = (fst h + fst (nextDir s), snd h + snd (nextDir s))"

text \<open>The cell drawn in round \<open>k\<close> of the loop of \<^verbatim>\<open>placeFood\<close>, counted from 0.\<close>

definition draw_at :: "host \<Rightarrow> rng \<Rightarrow> nat \<Rightarrow> cell" where
  "draw_at env r k = draw env ((advance ^^ k) r)"

text \<open>\<^verbatim>\<open>Math.random()\<close> returns numbers in \<open>[0, 1)\<close>.\<close>

definition unit_interval :: "rng \<Rightarrow> bool" where
  "unit_interval r = (\<forall>n. 0 \<le> r n \<and> r n < 1)"

text \<open>
  Every round of the loop of \<^verbatim>\<open>placeFood\<close> draws a cell of the grid. The code has this
  property on every grid with at least one cell: \<^verbatim>\<open>Math.random()\<close> is a binary64 number
  below 1, and its rounded product with a positive integer \<open>n\<close> below \<open>2^53\<close> is below
  \<open>n\<close>.
\<close>

definition draws_in_grid :: "host \<Rightarrow> rng \<Rightarrow> bool" where
  "draws_in_grid env r = (\<forall>k. inside env (draw_at env r k))"

text \<open>
  Rounding a non-negative number gives a non-negative number. Rounding to the nearest
  binary64 number has this property, 0 being a binary64 number.
\<close>

definition keeps_sign :: "host \<Rightarrow> bool" where
  "keeps_sign env = (\<forall>x. 0 \<le> x \<longrightarrow> 0 \<le> rnd env x)"

text \<open>A sequence of direction intents, delivered in order.\<close>

definition setDirections :: "string list \<Rightarrow> game \<Rightarrow> game" where
  "setDirections intents s = foldl (\<lambda>s' action. setDirection action s') s intents"

text \<open>
  One call of an entry point that returns normally, with any argument, any clock value
  and any outcome of the random numbers.
\<close>

inductive call :: "host \<Rightarrow> game \<Rightarrow> game \<Rightarrow> bool" for env :: host where
  call_update: "update env r s = Some (Inr (r', s')) \<Longrightarrow> call env s s'"
| call_setDirection: "call env s (setDirection action s)"
| call_togglePause: "call env s (togglePause now s)"
| call_restartGame: "restartGame env r now s = Some (r', s') \<Longrightarrow> call env s s'"
| call_placeFood: "placeFood env r s = Some (r', s') \<Longrightarrow> call env s s'"

text \<open>
  The states the game can be in: the script calls \<^verbatim>\<open>initGame()\<close> when it is loaded, and
  from then on the entry points and the frame callback \<^verbatim>\<open>gameLoop\<close> are called in any
  order.
\<close>

inductive reachable :: "host \<Rightarrow> game \<Rightarrow> bool" for env :: host where
  reach_init: "initGame env r now globals0 = Some (r', s) \<Longrightarrow> reachable env s"
| reach_call: "reachable env s \<Longrightarrow> call env s s' \<Longrightarrow> reachable env s'"
| reach_frame: "reachable env s \<Longrightarrow> gameLoop env r time s = Some (Inr (r', s')) \<Longrightarrow> reachable env s'"

text \<open>The same, when no frame callback receives a timestamp earlier than \<^verbatim>\<open>lastTime\<close>.\<close>

inductive reachable_forward :: "host \<Rightarrow> game \<Rightarrow> bool" for env :: host where
  forward_init: "initGame env r now globals0 = Some (r', s) \<Longrightarrow> reachable_forward env s"
| forward_call: "reachable_forward env s \<Longrightarrow> call env s s' \<Longrightarrow> reachable_forward env s'"
| forward_frame: "reachable_forward env s \<Longrightarrow> lastTime s \<le> time \<Longrightarrow>
     gameLoop env r time s = Some (Inr (r', s')) \<Longrightarrow> reachable_forward env s'"

text \<open>What every reachable state satisfies.\<close>

definition well_formed :: "game \<Rightarrow> bool" where
  "well_formed s = (distinct (snake s) \<and> length (snake s) = score s + 3)"

section \<open>Concrete data for the examples\<close>

text \<open>
  A host with a canvas of \<open>w\<close> by \<open>h\<close> pixels whose arithmetic does not round. The
  examples use it only on numbers on which binary64 arithmetic does not round either
  (small integers and multiples of 1/16), so they are runs of the code.
\<close>

definition exact :: "nat \<Rightarrow> nat \<Rightarrow> host" where
  "exact w h = \<lparr>width = w, height = h, rnd = (\<lambda>x. x)\<rparr>"

text \<open>A canvas of 600 by 600 pixels (a grid of 30 by 30 cells), a random source that
  returns 0 at every call, so that every draw is the cell (0, 0), and a game in progress
  with a given snake, direction and food.\<close>

definition board :: host where
  "board = exact 600 600"

definition zeros :: rng where
  "zeros = (\<lambda>n. 0)"

definition playing :: "cell list \<Rightarrow> cell \<Rightarrow> cell option \<Rightarrow> game" where
  "playing body d f = \<lparr>snake = body, dir = d, nextDir = d, food = f, score = 0,
     running = True, paused = False, gameOver = False, accumulator = 0, lastTime = 0\<rparr>"


definition lane :: host where
  "lane = exact 80 20"


text \<open>A source that returns 1/2 at every call draws the cell (15, 15) on the board of
  30 by 30 cells, the cell in front of the initial snake, and the cell (2, 0) on the lane.
  A source that returns 3/4 at every call draws the cell (3, 0) on the lane.\<close>

definition halves :: rng where
  "halves = (\<lambda>n. 1 / 2)"

definition three_quarters :: rng where
  "three_quarters = (\<lambda>n. 3 / 4)"

text \<open>The state right after \<^verbatim>\<open>initGame()\<close> on the board, at clock value \<open>now\<close> and
  with the food at \<open>f\<close>.\<close>

definition started :: "real \<Rightarrow> cell \<Rightarrow> game" where
  "started now f = (playing [(14, 15), (13, 15), (12, 15)] (1, 0) (Some f))\<lparr>lastTime := now\<rparr>"

section \<open>Facts about the functions\<close>

lemma placeFood_loop_result:
  assumes "placeFood_loop env occupied r = Some y"
  shows "fst y \<notin> occupied"
  by (rule placeFood_loop.raw_induct[where P = "\<lambda>env occ r y. fst y \<notin> occ", OF _ assms])
     (auto split: if_splits)

lemma placeFood_frame:
  assumes "placeFood env r s = Some (r', s')"
  shows "\<exists>f. f \<notin> set (snake s) \<and> s' = s\<lparr>food := Some f\<rparr>"
proof -
  from assms obtain f where l: "placeFood_loop env (set (snake s)) r = Some (f, r')"
    and s': "s' = s\<lparr>food := Some f\<rparr>"
    by (auto simp: placeFood_def split: option.splits)
  from placeFood_loop_result [OF l] have "f \<notin> set (snake s)" by simp
  with s' show ?thesis by blast
qed

lemma update_accumulator:
  "update env r s = Some (Inr (r', s')) \<Longrightarrow> accumulator s' = accumulator s"
  by (auto simp: update_def Let_def split: if_splits list.splits dest!: placeFood_frame)

section \<open>Collisions\<close>

lemma list_ex_cell: "list_ex (\<lambda>segment. fst segment = a \<and> snd segment = b) xs \<longleftrightarrow> (a, b) \<in> set xs"
  by (induction xs) auto

lemma board_grid: "COLS board = 30" "ROWS board = 30"
  by (simp_all add: COLS_def ROWS_def CELL_def board_def exact_def)

text \<open>
  C2. In a running, unpaused state that is not over, when the head plus the committed
  direction is outside the grid, one \<^verbatim>\<open>update()\<close> returns with \<^verbatim>\<open>gameOver = true\<close> and
  \<^verbatim>\<open>running = false\<close>; the snake, the score and the food are as before the call (the new
  head is not added). The only other change is that the queued direction has been
  committed.
\<close>

theorem update_wall_collision:
  assumes "running s" and "\<not> paused s" and "\<not> gameOver s"
    and "snake s = h # t"
    and "\<not> inside env (newHead h s)"
  shows "update env r s = Some (Inr (r, s\<lparr>dir := nextDir s, gameOver := True, running := False\<rparr>))
    \<and> (\<forall>r' s'. update env r s = Some (Inr (r', s')) \<longrightarrow>
          gameOver s' \<and> \<not> running s' \<and> snake s' = snake s \<and> score s' = score s \<and> food s' = food s)"
  using assms by (auto simp: update_def inside_def newHead_def Let_def)

theorem update_wall_collision_witness:
  "update board zeros (playing [(0, 5), (1, 5), (2, 5)] (-1, 0) (Some (7, 7)))
     = Some (Inr (zeros, (playing [(0, 5), (1, 5), (2, 5)] (-1, 0) (Some (7, 7)))
         \<lparr>dir := (-1, 0), gameOver := True, running := False\<rparr>))"
  using update_wall_collision [of "playing [(0, 5), (1, 5), (2, 5)] (-1, 0) (Some (7, 7))"
      "(0, 5)" "[(1, 5), (2, 5)]" board zeros]
  by (simp add: playing_def inside_def newHead_def board_grid)

text \<open>
  C10. In a running, unpaused state that is not over, a tick whose new head is the cell
  of the last segment of the snake ends the game (\<^verbatim>\<open>gameOver = true\<close>,
  \<^verbatim>\<open>running = false\<close>) and leaves the snake as it was, although moving the tail would
  have freed that cell: the test for a collision with the snake looks at the whole snake,
  the tail included, before any segment is removed.
\<close>

theorem update_tail_collision:
  assumes "running s" and "\<not> paused s" and "\<not> gameOver s"
    and "snake s = h # t"
    and "newHead h s = last (snake s)"
  shows "update env r s = Some (Inr (r, s\<lparr>dir := nextDir s, gameOver := True, running := False\<rparr>))"
proof -
  have "newHead h s \<in> set (snake s)"
    using assms(4,5) by (metis last_in_set list.distinct(1))
  then show ?thesis
    using assms(1-4) by (simp add: update_def Let_def list_ex_cell newHead_def)
qed

theorem update_tail_collision_witness:
  "update board zeros (playing [(1, 1), (1, 2), (2, 2), (2, 1)] (1, 0) None)
     = Some (Inr (zeros, (playing [(1, 1), (1, 2), (2, 2), (2, 1)] (1, 0) None)
         \<lparr>dir := (1, 0), gameOver := True, running := False\<rparr>))
   \<and> inside board (2, 1) \<and> (2, 1) \<notin> set (butlast [(1, 1), (1, 2), (2, 2), (2 :: int, 1 :: int)])"
  using update_tail_collision [of "playing [(1, 1), (1, 2), (2, 2), (2, 1)] (1, 0) None"
      "(1, 1)" "[(1, 2), (2, 2), (2, 1)]" board zeros]
  by (simp add: playing_def inside_def newHead_def board_grid)

section \<open>Direction intents\<close>

lemma setDirection_dir: "dir (setDirection action s) = dir s"
  by (simp add: setDirection_def split: option.splits)

lemma setDirections_dir: "dir (setDirections intents s) = dir s"
  unfolding setDirections_def
  by (induction intents arbitrary: s) (simp_all add: setDirection_dir)

text \<open>
  C5. When the vector of the requested direction \<open>R\<close> (one of up, down, left, right) is
  the exact inverse of the current direction, \<^verbatim>\<open>setDirection(R)\<close> changes nothing: the
  current and the queued direction are as before. The test is against the current
  direction, which no intent changes, so the same holds for such a call after any
  sequence of intents delivered since the last tick.
\<close>

theorem setDirection_reverse_ignored:
  assumes "map_of direction_map R = Some nd"
    and "nd = (- fst (dir s), - snd (dir s))"
  shows "setDirection R s = s
    \<and> dir (setDirections intents s) = dir s
    \<and> setDirection R (setDirections intents s) = setDirections intents s"
  using assms by (simp add: setDirection_def setDirections_dir)

theorem setDirection_reverse_ignored_witness:
  "setDirection ''left'' (playing [(5, 5), (4, 5), (3, 5)] (1, 0) None)
     = playing [(5, 5), (4, 5), (3, 5)] (1, 0) None
   \<and> setDirection ''left'' (setDirections [''up'', ''left'', ''down'']
        (playing [(5, 5), (4, 5), (3, 5)] (1, 0) None))
     = (playing [(5, 5), (4, 5), (3, 5)] (1, 0) None)\<lparr>nextDir := (0, 1)\<rparr>"
proof -
  let ?s = "playing [(5, 5), (4, 5), (3, 5)] (1, 0) None"
  have m: "map_of direction_map ''left'' = Some (-1, 0)"
    by (simp add: direction_map_def)
  have d: "(-1, 0) = (- fst (dir ?s), - snd (dir ?s))"
    by (simp add: playing_def)
  note th = setDirection_reverse_ignored [OF m d, of "[''up'', ''left'', ''down'']"]
  have up: "map_of direction_map ''up'' = Some (0, -1)"
    and down: "map_of direction_map ''down'' = Some (0, 1)"
    by (simp_all add: direction_map_def)
  have run: "setDirections [''up'', ''left'', ''down''] ?s = ?s\<lparr>nextDir := (0, 1)\<rparr>"
    by (simp add: setDirections_def setDirection_def m up down playing_def)
  from th have a: "setDirection ''left'' ?s = ?s" by (rule conjunct1)
  from th have b: "setDirection ''left'' (setDirections [''up'', ''left'', ''down''] ?s)
      = setDirections [''up'', ''left'', ''down''] ?s" by blast
  show ?thesis using a b run by (simp only:)
qed

section \<open>Food placement and growth\<close>

lemma draw_at_0: "draw_at env r 0 = draw env r"
  by (simp add: draw_at_def)

lemma draw_at_Suc: "draw_at env r (Suc k) = draw_at env (advance r) k"
  by (simp add: draw_at_def funpow_swap1)

lemma placeFood_loop_free:
  "draw env r \<notin> occupied \<Longrightarrow> placeFood_loop env occupied r = Some (draw env r, advance r)"
  by (subst placeFood_loop.simps) simp

lemma placeFood_loop_again:
  "draw env r \<in> occupied \<Longrightarrow> placeFood_loop env occupied r = placeFood_loop env occupied (advance r)"
  by (subst placeFood_loop.simps) simp

lemma placeFood_loop_returns:
  "draw_at env r k \<notin> occupied \<Longrightarrow> \<exists>y. placeFood_loop env occupied r = Some y"
proof (induction k arbitrary: r)
  case 0
  then show ?case by (simp add: draw_at_0 placeFood_loop_free)
next
  case (Suc k)
  show ?case
  proof (cases "draw env r \<in> occupied")
    case True
    from Suc.prems have "draw_at env (advance r) k \<notin> occupied"
      by (simp add: draw_at_Suc)
    then obtain y where "placeFood_loop env occupied (advance r) = Some y"
      using Suc.IH by blast
    with True show ?thesis by (simp add: placeFood_loop_again)
  next
    case False
    then show ?thesis by (simp add: placeFood_loop_free)
  qed
qed

lemma placeFood_loop_is_draw:
  assumes "placeFood_loop env occupied r = Some y"
  shows "\<exists>k. fst y = draw_at env r k \<and> fst y \<notin> occupied"
proof (rule placeFood_loop.raw_induct[where P = "\<lambda>env occ r y. \<exists>k. fst y = draw_at env r k \<and> fst y \<notin> occ", OF _ assms])
  fix loop :: "host \<Rightarrow> cell set \<Rightarrow> rng \<Rightarrow> (cell \<times> rng) option"
    and env occupied r y
  assume IH: "\<And>env occupied r y. loop env occupied r = Some y \<Longrightarrow>
      \<exists>k. fst y = draw_at env r k \<and> fst y \<notin> occupied"
    and body: "(if draw env r \<in> occupied then loop env occupied (advance r)
      else Some (draw env r, advance r)) = Some y"
  show "\<exists>k. fst y = draw_at env r k \<and> fst y \<notin> occupied"
  proof (cases "draw env r \<in> occupied")
    case True
    with body have "loop env occupied (advance r) = Some y" by simp
    from IH [OF this] obtain k where "fst y = draw_at env (advance r) k" and "fst y \<notin> occupied"
      by blast
    then have "fst y = draw_at env r (Suc k) \<and> fst y \<notin> occupied"
      by (simp add: draw_at_Suc)
    then show ?thesis by blast
  next
    case False
    with body have "fst y = draw_at env r 0 \<and> fst y \<notin> occupied"
      by (auto simp: draw_at_0)
    then show ?thesis by blast
  qed
qed

lemma placeFood_returns_iff:
  "(\<exists>y. placeFood env r s = Some y) \<longleftrightarrow> (\<exists>k. draw_at env r k \<notin> set (snake s))"
proof
  assume "\<exists>y. placeFood env r s = Some y"
  then obtain y where "placeFood_loop env (set (snake s)) r = Some y"
    by (auto simp: placeFood_def split: option.splits)
  from placeFood_loop_is_draw [OF this] show "\<exists>k. draw_at env r k \<notin> set (snake s)"
    by metis
next
  assume "\<exists>k. draw_at env r k \<notin> set (snake s)"
  then obtain y where "placeFood_loop env (set (snake s)) r = Some y"
    using placeFood_loop_returns by blast
  then show "\<exists>y. placeFood env r s = Some y"
    by (cases y) (simp add: placeFood_def)
qed


lemma draw_at_constant: "draw_at env (\<lambda>n. c) k = draw env (\<lambda>n. c)"
  by (induction k) (simp_all add: draw_at_0 draw_at_Suc advance_def)

lemma draw_zeros: "draw board zeros = (0, 0)" "advance zeros = zeros"
  by (simp_all add: draw_def advance_def zeros_def board_def exact_def)




lemma lane_grid: "COLS lane = 4" "ROWS lane = 1"
  by (simp_all add: COLS_def ROWS_def CELL_def lane_def exact_def)

lemma lane_zeros: "draw_at lane zeros k = (0, 0)"
  unfolding zeros_def draw_at_constant by (simp add: draw_def lane_def exact_def)

lemma lane_draws: "draw lane halves = (2, 0)" "draw lane three_quarters = (3, 0)"
  "advance halves = halves" "advance three_quarters = three_quarters"
  by (simp_all add: draw_def advance_def halves_def three_quarters_def lane_grid)
     (simp_all add: lane_def exact_def)



lemma placeFood_never:
  assumes "\<And>k. draw_at env r k \<in> set (snake s)"
  shows "placeFood env r s = None"
proof -
  from assms have "\<not> (\<exists>y. placeFood env r s = Some y)"
    using placeFood_returns_iff by blast
  then show ?thesis by (cases "placeFood env r s") blast+
qed

text \<open>
  C6. Whenever \<^verbatim>\<open>placeFood()\<close> returns, the food is a cell that no segment of the snake
  occupies, and nothing but the food has changed: the snake, the score, both directions,
  the three flags, the accumulator and the clock reference are as before the call.
  The call returns as soon as some round of its loop draws a free cell.
\<close>

theorem placeFood_sets_only_food:
  assumes "placeFood env r s = Some (r', s')"
  shows "(\<exists>f. food s' = Some f \<and> f \<notin> set (snake s') \<and> s' = s\<lparr>food := Some f\<rparr>)
    \<and> snake s' = snake s \<and> score s' = score s \<and> dir s' = dir s \<and> nextDir s' = nextDir s
    \<and> running s' = running s \<and> paused s' = paused s \<and> gameOver s' = gameOver s
    \<and> accumulator s' = accumulator s \<and> lastTime s' = lastTime s"
proof -
  from placeFood_frame [OF assms] obtain f
    where "f \<notin> set (snake s)" and "s' = s\<lparr>food := Some f\<rparr>" by blast
  then show ?thesis by simp
qed

theorem placeFood_sets_only_food_witness:
  "placeFood board zeros (playing [(5, 5), (4, 5), (3, 5)] (1, 0) None)
     = Some (zeros, (playing [(5, 5), (4, 5), (3, 5)] (1, 0) None)\<lparr>food := Some (0, 0)\<rparr>)
   \<and> (0, 0) \<notin> set (snake ((playing [(5, 5), (4, 5), (3, 5)] (1, 0) None)\<lparr>food := Some (0, 0)\<rparr>))
   \<and> score ((playing [(5, 5), (4, 5), (3, 5)] (1, 0) None)\<lparr>food := Some (0, 0)\<rparr>)
     = score (playing [(5, 5), (4, 5), (3, 5)] (1, 0) None)"
proof -
  let ?s = "playing [(5, 5), (4, 5), (3, 5)] (1, 0) None"
  have "draw board zeros \<notin> set (snake ?s)"
    by (simp add: draw_zeros playing_def)
  then have e: "placeFood board zeros ?s = Some (zeros, ?s\<lparr>food := Some (0, 0)\<rparr>)"
    by (simp add: placeFood_def placeFood_loop_free draw_zeros)
  from placeFood_sets_only_food [OF e]
  have "(0, 0) \<notin> set (snake (?s\<lparr>food := Some (0, 0)\<rparr>))"
    and "score (?s\<lparr>food := Some (0, 0)\<rparr>) = score ?s"
    by simp_all
  with e show ?thesis by blast
qed




section \<open>Invariants of the reachable states\<close>

lemma update_cases:
  assumes "update env r s = Some (Inr (r', s'))"
  shows "s' = s
    \<or> s' = s\<lparr>dir := nextDir s, gameOver := True, running := False\<rparr>
    \<or> (\<exists>h t f. snake s = h # t \<and> newHead h s \<notin> set (snake s)
          \<and> s' = s\<lparr>dir := nextDir s, snake := newHead h s # snake s, score := score s + 1,
                   food := Some f\<rparr>)
    \<or> (\<exists>h t. snake s = h # t \<and> newHead h s \<notin> set (snake s)
          \<and> s' = s\<lparr>dir := nextDir s, snake := newHead h s # butlast (snake s)\<rparr>)"
proof (cases "\<not> running s \<or> paused s \<or> gameOver s")
  case True
  with assms show ?thesis by (simp add: update_def)
next
  case live: False
  show ?thesis
  proof (cases "snake s")
    case Nil
    with live assms show ?thesis by (simp add: update_def)
  next
    case (Cons h t)
    let ?n = "newHead h s"
    show ?thesis
    proof (cases "\<not> inside env ?n \<or> ?n \<in> set (snake s)")
      case True
      with live Cons assms have "s' = s\<lparr>dir := nextDir s, gameOver := True, running := False\<rparr>"
        by (auto simp: update_def Let_def list_ex_cell inside_def newHead_def split: if_splits)
      then show ?thesis by blast
    next
      case ok: False
      show ?thesis
      proof (cases "food s = Some ?n")
        case True
        with live Cons ok assms
        have "placeFood env r (s\<lparr>dir := nextDir s, snake := ?n # snake s, score := score s + 1\<rparr>)
            = Some (r', s')"
          by (auto simp: update_def Let_def list_ex_cell inside_def newHead_def split: if_splits)
        from placeFood_frame [OF this] obtain f
          where "s' = s\<lparr>dir := nextDir s, snake := ?n # snake s, score := score s + 1,
            food := Some f\<rparr>"
          by auto
        with Cons ok show ?thesis by blast
      next
        case False
        with live Cons ok assms
        have "s' = s\<lparr>dir := nextDir s, snake := ?n # butlast (snake s)\<rparr>"
          by (auto simp: update_def Let_def list_ex_cell inside_def newHead_def split: if_splits)
        with Cons ok show ?thesis by blast
      qed
    qed
  qed
qed

lemma well_formed_accumulator: "well_formed (s\<lparr>accumulator := a\<rparr>) = well_formed s"
  by (simp add: well_formed_def)

lemma update_well_formed:
  assumes "update env r s = Some (Inr (r', s'))" and "well_formed s"
  shows "well_formed s'"
proof -
  from assms(2) have d: "distinct (snake s)" and l: "length (snake s) = score s + 3"
    by (simp_all add: well_formed_def)
  from update_cases [OF assms(1)] consider
      "s' = s"
    | "s' = s\<lparr>dir := nextDir s, gameOver := True, running := False\<rparr>"
    | h t f where "snake s = h # t" "newHead h s \<notin> set (snake s)"
        "s' = s\<lparr>dir := nextDir s, snake := newHead h s # snake s, score := score s + 1,
           food := Some f\<rparr>"
    | h t where "snake s = h # t" "newHead h s \<notin> set (snake s)"
        "s' = s\<lparr>dir := nextDir s, snake := newHead h s # butlast (snake s)\<rparr>"
    by blast
  then show ?thesis
  proof cases
    case 1
    with assms(2) show ?thesis by simp
  next
    case 2
    with d l show ?thesis by (simp add: well_formed_def)
  next
    case 3
    with d l show ?thesis by (simp add: well_formed_def)
  next
    case 4
    from 4(2) have "newHead h s \<notin> set (butlast (snake s))"
      by (meson in_set_butlastD)
    moreover from d have "distinct (butlast (snake s))"
      by (rule distinct_butlast)
    moreover from 4(1) have "0 < length (snake s)"
      by simp
    then have "Suc (length (butlast (snake s))) = length (snake s)"
      unfolding length_butlast by arith
    with l have "Suc (length (butlast (snake s))) = score s + 3"
      by (simp only:)
    ultimately show ?thesis using 4(3) by (simp add: well_formed_def)
  qed
qed

lemma initGame_result:
  assumes "initGame env r now s = Some (r', s')"
  shows "snake s' = [(COLS env div 2 - 1, ROWS env div 2), (COLS env div 2 - 2, ROWS env div 2),
      (COLS env div 2 - 3, ROWS env div 2)]
    \<and> score s' = 0 \<and> accumulator s' = 0 \<and> lastTime s' = now \<and> running s'
    \<and> \<not> paused s' \<and> \<not> gameOver s' \<and> dir s' = (1, 0) \<and> nextDir s' = (1, 0)"
proof -
  let ?s1 = "s\<lparr>snake := [(COLS env div 2 - 1, ROWS env div 2), (COLS env div 2 - 2, ROWS env div 2),
      (COLS env div 2 - 3, ROWS env div 2)], dir := (1, 0), nextDir := (1, 0), score := 0,
      paused := False, gameOver := False\<rparr>"
  from assms obtain r1 s2 where p: "placeFood env r ?s1 = Some (r1, s2)"
    and s': "s' = s2\<lparr>running := True, accumulator := 0, lastTime := now\<rparr>"
    by (auto simp: initGame_def Let_def split: option.splits)
  from placeFood_frame [OF p] obtain f where "s2 = ?s1\<lparr>food := Some f\<rparr>" by blast
  with s' show ?thesis by simp
qed

lemma initGame_well_formed: "initGame env r now s = Some (r', s') \<Longrightarrow> well_formed s'"
  by (drule initGame_result) (simp add: well_formed_def)

lemma togglePause_fields:
  "snake (togglePause now s) = snake s" "score (togglePause now s) = score s"
  "accumulator (togglePause now s) = accumulator s"
  by (simp_all add: togglePause_def Let_def)

lemma setDirection_fields:
  "snake (setDirection action s) = snake s" "score (setDirection action s) = score s"
  "accumulator (setDirection action s) = accumulator s"
  by (simp_all add: setDirection_def split: option.splits)

lemma call_well_formed:
  assumes "call env s s'" and "well_formed s"
  shows "well_formed s'"
  using assms
proof (cases rule: call.cases)
  case (call_update r r')
  with assms(2) show ?thesis by (blast intro: update_well_formed)
next
  case (call_setDirection action)
  with assms(2) show ?thesis by (simp add: well_formed_def setDirection_fields)
next
  case (call_togglePause now)
  with assms(2) show ?thesis by (simp add: well_formed_def togglePause_fields)
next
  case (call_restartGame r now r')
  then show ?thesis by (auto simp: restartGame_def dest: initGame_well_formed)
next
  case (call_placeFood r r')
  from placeFood_frame [OF call_placeFood] assms(2) show ?thesis
    by (auto simp: well_formed_def)
qed

lemma drain_invariant:
  assumes d: "drain env r s = Some (Inr (r', s'))" and i: "I s"
    and pres: "\<And>r s r1 s1. I s \<Longrightarrow> step \<le> accumulator s \<Longrightarrow>
      update env r s = Some (Inr (r1, s1)) \<Longrightarrow>
      I (s1\<lparr>accumulator := rnd env (accumulator s1 - step)\<rparr>)"
  shows "I s' \<and> accumulator s' < step"
proof -
  let ?P = "\<lambda>e (r :: rng) s (y :: error + rng \<times> game). e = env \<longrightarrow> I s \<longrightarrow>
    (\<forall>r' s'. y = Inr (r', s') \<longrightarrow> I s' \<and> accumulator s' < step)"
  have "?P env r s (Inr (r', s'))"
  proof (rule drain.raw_induct [where P = ?P, OF _ d])
    fix loop :: "host \<Rightarrow> rng \<Rightarrow> game \<Rightarrow> (error + rng \<times> game) option"
      and e r s y
    assume IH: "\<And>e r s y. loop e r s = Some y \<Longrightarrow> ?P e r s y"
      and body: "(if step \<le> accumulator s then
          (case update e r s of
             None \<Rightarrow> None
           | Some (Inl err) \<Rightarrow> Some (Inl err)
           | Some (Inr (r1, s1)) \<Rightarrow>
               loop e r1 (s1\<lparr>accumulator := rnd e (accumulator s1 - step)\<rparr>))
        else Some (Inr (r, s))) = Some y"
    show "?P e r s y"
    proof (intro impI allI)
      fix r' s'
      assume e: "e = env" and inv: "I s" and y: "y = Inr (r', s')"
      show "I s' \<and> accumulator s' < step"
      proof (cases "step \<le> accumulator s")
        case True
        with body y obtain r1 s1 where u: "update e r s = Some (Inr (r1, s1))"
          and l: "loop e r1 (s1\<lparr>accumulator := rnd e (accumulator s1 - step)\<rparr>) = Some y"
          by (auto split: option.splits sum.splits)
        from pres [OF inv True] u e
        have "I (s1\<lparr>accumulator := rnd e (accumulator s1 - step)\<rparr>)" by simp
        with IH [OF l] e y show ?thesis by blast
      next
        case False
        with body y inv show ?thesis by simp
      qed
    qed
  qed
  with i show ?thesis by blast
qed

lemma drain_well_formed:
  assumes "drain env r s = Some (Inr (r', s'))" and "well_formed s"
  shows "well_formed s'"
proof -
  have "well_formed s' \<and> accumulator s' < step"
    using assms
  proof (rule drain_invariant)
    fix r s r1 s1
    assume "well_formed s" and "update env r s = Some (Inr (r1, s1))"
    then have "well_formed s1" by (blast intro: update_well_formed)
    then show "well_formed (s1\<lparr>accumulator := rnd env (accumulator s1 - step)\<rparr>)"
      by (simp add: well_formed_accumulator)
  qed
  then show ?thesis by blast
qed

lemma gameLoop_well_formed:
  assumes "gameLoop env r time s = Some (Inr (r', s'))" and "well_formed s"
  shows "well_formed s'"
proof (cases "running s \<and> \<not> paused s")
  case True
  with assms(1) have "drain env r (s\<lparr>lastTime := time,
      accumulator := rnd env (accumulator s + rnd env (rnd env (time - lastTime s) / 1000))\<rparr>)
      = Some (Inr (r', s'))"
    by (simp add: gameLoop_def Let_def)
  moreover from assms(2) have "well_formed (s\<lparr>lastTime := time,
      accumulator := rnd env (accumulator s + rnd env (rnd env (time - lastTime s) / 1000))\<rparr>)"
    by (simp add: well_formed_def)
  ultimately show ?thesis by (rule drain_well_formed)
next
  case False
  with assms show ?thesis by (auto simp: gameLoop_def split: if_splits)
qed

lemma reachable_well_formed: "reachable env s \<Longrightarrow> well_formed s"
proof (induction rule: reachable.induct)
  case (reach_init r now r' s)
  then show ?case by (rule initGame_well_formed)
next
  case (reach_call s s')
  then show ?case by (blast intro: call_well_formed)
next
  case (reach_frame s r time r' s')
  then show ?case by (blast intro: gameLoop_well_formed)
qed


lemma draw_halves: "draw board halves = (15, 15)" "advance halves = halves"
  by (simp_all add: draw_def advance_def halves_def board_grid) (simp add: board_def exact_def)

lemma initGame_zeros: "initGame board zeros now globals0 = Some (zeros, started now (0, 0))"
proof -
  have "placeFood_loop board (set [(14, 15), (13, 15), (12, 15)]) zeros = Some ((0, 0), zeros)"
    using placeFood_loop_free [of board zeros "set [(14, 15), (13, 15), (12, 15)]"]
    by (simp add: draw_zeros)
  then show ?thesis
    by (simp add: initGame_def placeFood_def globals0_def started_def playing_def board_grid)
qed

lemma initGame_halves: "initGame board halves now globals0 = Some (halves, started now (15, 15))"
proof -
  have "placeFood_loop board (set [(14, 15), (13, 15), (12, 15)]) halves = Some ((15, 15), halves)"
    using placeFood_loop_free [of board halves "set [(14, 15), (13, 15), (12, 15)]"]
    by (simp add: draw_halves)
  then show ?thesis
    by (simp add: initGame_def placeFood_def globals0_def started_def playing_def board_grid)
qed

lemma update_started_move:
  "update board zeros ((started now (0, 0))\<lparr>accumulator := a\<rparr>)
     = Some (Inr (zeros, (started now (0, 0))\<lparr>snake := [(15, 15), (14, 15), (13, 15)],
         accumulator := a\<rparr>))"
  by (simp add: update_def started_def playing_def board_grid Let_def)

lemma update_started_eat:
  "update board zeros (started now (15, 15))
     = Some (Inr (zeros, (started now (0, 0))\<lparr>snake := [(15, 15), (14, 15), (13, 15), (12, 15)],
         score := 1\<rparr>))"
proof -
  have "placeFood_loop board (set [(15, 15), (14, 15), (13, 15), (12, 15)]) zeros
      = Some ((0, 0), zeros)"
    using placeFood_loop_free [of board zeros "set [(15, 15), (14, 15), (13, 15), (12, 15)]"]
    by (simp add: draw_zeros)
  then show ?thesis
    by (simp add: update_def placeFood_def started_def playing_def board_grid Let_def)
qed

lemma reachable_grown:
  "reachable board ((started 0 (0, 0))\<lparr>snake := [(15, 15), (14, 15), (13, 15), (12, 15)],
     score := 1\<rparr>)"
proof -
  have "reachable board (started 0 (15, 15))"
    using initGame_halves by (rule reach_init)
  moreover have "call board (started 0 (15, 15))
      ((started 0 (0, 0))\<lparr>snake := [(15, 15), (14, 15), (13, 15), (12, 15)], score := 1\<rparr>)"
    using update_started_eat by (rule call_update)
  ultimately show ?thesis by (rule reach_call)
qed

text \<open>
  C1. In every state reachable from \<^verbatim>\<open>initGame()\<close> by calls of \<^verbatim>\<open>update()\<close>,
  \<^verbatim>\<open>setDirection()\<close>, \<^verbatim>\<open>togglePause()\<close>, \<^verbatim>\<open>restartGame()\<close>, \<^verbatim>\<open>placeFood()\<close> and the frame
  callback, while \<^verbatim>\<open>gameOver\<close> is false, two distinct indices of the snake hold distinct
  cells.
\<close>

theorem snake_never_overlaps:
  assumes "reachable env s" and "\<not> gameOver s"
    and "i < length (snake s)" and "j < length (snake s)" and "i \<noteq> j"
  shows "snake s ! i \<noteq> snake s ! j"
proof -
  from reachable_well_formed [OF assms(1)] have "distinct (snake s)"
    by (simp add: well_formed_def)
  with assms(3-5) show ?thesis
    by (simp add: nth_eq_iff_index_eq)
qed

theorem snake_never_overlaps_witness:
  "reachable board ((started 0 (0, 0))\<lparr>snake := [(15, 15), (14, 15), (13, 15), (12, 15)],
     score := 1\<rparr>)
   \<and> snake ((started 0 (0, 0))\<lparr>snake := [(15, 15), (14, 15), (13, 15), (12, 15)], score := 1\<rparr>) ! 0
     \<noteq> snake ((started 0 (0, 0))\<lparr>snake := [(15, 15), (14, 15), (13, 15), (12, 15)], score := 1\<rparr>) ! 3"
proof -
  let ?s = "(started 0 (0, 0))\<lparr>snake := [(15, 15), (14, 15), (13, 15), (12, 15)], score := 1\<rparr>"
  have "\<not> gameOver ?s" "0 < length (snake ?s)" "3 < length (snake ?s)" "(0 :: nat) \<noteq> 3"
    by (simp_all add: started_def playing_def)
  from snake_never_overlaps [OF reachable_grown this] reachable_grown
  show ?thesis by blast
qed

text \<open>
  C9. In every state reachable from \<^verbatim>\<open>initGame()\<close> by calls of \<^verbatim>\<open>update()\<close>,
  \<^verbatim>\<open>setDirection()\<close>, \<^verbatim>\<open>togglePause()\<close> and \<^verbatim>\<open>restartGame()\<close> (and also of
  \<^verbatim>\<open>placeFood()\<close> and the frame callback), the length of the snake is the score plus 3.
\<close>

theorem snake_length_is_score_plus_3:
  assumes "reachable env s"
  shows "length (snake s) = score s + 3"
  using reachable_well_formed [OF assms] by (simp add: well_formed_def)

theorem snake_length_is_score_plus_3_witness:
  "reachable board ((started 0 (0, 0))\<lparr>snake := [(15, 15), (14, 15), (13, 15), (12, 15)],
     score := 1\<rparr>)
   \<and> length (snake ((started 0 (0, 0))\<lparr>snake := [(15, 15), (14, 15), (13, 15), (12, 15)],
     score := 1\<rparr>))
     = score ((started 0 (0, 0))\<lparr>snake := [(15, 15), (14, 15), (13, 15), (12, 15)],
     score := 1\<rparr>) + 3"
  using snake_length_is_score_plus_3 [OF reachable_grown] reachable_grown by blast

section \<open>Growth\<close>

lemma update_eating:
  assumes "running s" and "\<not> paused s" and "\<not> gameOver s"
    and "snake s = h # t"
    and "inside env (newHead h s)"
    and "newHead h s \<notin> set (snake s)"
    and "food s = Some (newHead h s)"
  shows "update env r s = map_option Inr
      (placeFood env r (s\<lparr>dir := nextDir s, snake := newHead h s # snake s, score := score s + 1\<rparr>))"
  using assms by (simp add: update_def Let_def list_ex_cell inside_def newHead_def)

text \<open>
  C3, as the code has it. In a running, unpaused state that is not over, when the new head
  is inside the grid, on no segment of the snake, and on the food, \<^verbatim>\<open>update()\<close> adds the
  new head in front of the snake, removes nothing, adds 1 to the score and calls
  \<^verbatim>\<open>placeFood()\<close>. Whenever the call returns, the snake is the new head followed by the
  old snake in its old order (one segment longer) and the score is one higher. The call
  returns exactly when \<^verbatim>\<open>placeFood()\<close> draws a cell that the grown snake does not occupy;
  where every draw is a cell of the grid and the grown snake occupies every cell of the
  grid, it never returns.
\<close>

theorem update_eats_food:
  assumes "running s" and "\<not> paused s" and "\<not> gameOver s"
    and "snake s = h # t"
    and "inside env (newHead h s)"
    and "newHead h s \<notin> set (snake s)"
    and "food s = Some (newHead h s)"
  shows "update env r s = map_option Inr
      (placeFood env r (s\<lparr>dir := nextDir s, snake := newHead h s # snake s, score := score s + 1\<rparr>))
    \<and> (\<forall>r' s'. update env r s = Some (Inr (r', s')) \<longrightarrow>
          snake s' = newHead h s # snake s \<and> length (snake s') = length (snake s) + 1
          \<and> score s' = score s + 1)
    \<and> ((\<exists>r' s'. update env r s = Some (Inr (r', s'))) \<longleftrightarrow>
          (\<exists>k. draw_at env r k \<notin> set (newHead h s # snake s)))
    \<and> (draws_in_grid env r \<and> (\<forall>c. inside env c \<longrightarrow> c \<in> set (newHead h s # snake s))
          \<longrightarrow> update env r s = None)"
proof -
  let ?s1 = "s\<lparr>dir := nextDir s, snake := newHead h s # snake s, score := score s + 1\<rparr>"
  have eq: "update env r s = map_option Inr (placeFood env r ?s1)"
    using assms by (rule update_eating)
  have post: "snake s' = newHead h s # snake s \<and> length (snake s') = length (snake s) + 1
      \<and> score s' = score s + 1" if "update env r s = Some (Inr (r', s'))" for r' s'
  proof -
    from that eq have "placeFood env r ?s1 = Some (r', s')" by auto
    from placeFood_frame [OF this] obtain f where "s' = ?s1\<lparr>food := Some f\<rparr>" by blast
    then show ?thesis by simp
  qed
  have "(\<exists>y. placeFood env r ?s1 = Some y) \<longleftrightarrow> (\<exists>k. draw_at env r k \<notin> set (snake ?s1))"
    by (rule placeFood_returns_iff)
  moreover have "(\<exists>r' s'. update env r s = Some (Inr (r', s'))) \<longleftrightarrow>
      (\<exists>y. placeFood env r ?s1 = Some y)"
    unfolding eq by auto
  ultimately have ret: "(\<exists>r' s'. update env r s = Some (Inr (r', s'))) \<longleftrightarrow>
      (\<exists>k. draw_at env r k \<notin> set (newHead h s # snake s))"
    by simp
  have never: "update env r s = None"
    if "draws_in_grid env r \<and> (\<forall>c. inside env c \<longrightarrow> c \<in> set (newHead h s # snake s))"
  proof -
    from that have "draw_at env r k \<in> set (newHead h s # snake s)" for k
      unfolding draws_in_grid_def by blast
    then have "draw_at env r k \<in> set (snake ?s1)" for k
      by simp
    then have "placeFood env r ?s1 = None" by (rule placeFood_never)
    with eq show ?thesis by simp
  qed
  from eq post ret never show ?thesis by blast
qed

theorem update_eats_food_witness:
  "update board zeros (playing [(13, 15), (12, 15), (11, 15)] (1, 0) (Some (14, 15)))
     = Some (Inr (zeros, (playing [(14, 15), (13, 15), (12, 15), (11, 15)] (1, 0) (Some (0, 0)))
         \<lparr>score := 1\<rparr>))"
proof -
  let ?s = "playing [(13, 15), (12, 15), (11, 15)] (1, 0) (Some (14, 15))"
  have nh: "newHead (13, 15) ?s = (14, 15)"
    by (simp add: newHead_def playing_def)
  have pre: "running ?s" "\<not> paused ?s" "\<not> gameOver ?s"
    "snake ?s = (13, 15) # [(12, 15), (11, 15)]"
    "inside board (newHead (13, 15) ?s)"
    "newHead (13, 15) ?s \<notin> set (snake ?s)"
    "food ?s = Some (newHead (13, 15) ?s)"
    unfolding nh by (simp_all add: playing_def inside_def board_grid)
  note th = update_eats_food [OF pre, of zeros]
  from th have eq: "update board zeros ?s = map_option Inr (placeFood board zeros
      (?s\<lparr>dir := nextDir ?s, snake := newHead (13, 15) ?s # snake ?s, score := score ?s + 1\<rparr>))"
    by (rule conjunct1)
  have "draw board zeros \<notin> set [(14, 15), (13, 15), (12, 15), (11 :: int, 15 :: int)]"
    by (simp add: draw_zeros)
  then have "placeFood_loop board (set [(14, 15), (13, 15), (12, 15), (11, 15)]) zeros
      = Some ((0, 0), zeros)"
    using placeFood_loop_free [of board zeros] by (simp add: draw_zeros)
  then show ?thesis
    unfolding eq nh by (simp add: placeFood_def playing_def)
qed

text \<open>
  C3 as stated fails where the grown snake fills the grid. On the canvas of 80 by 20
  pixels (four cells in a row) \<^verbatim>\<open>initGame()\<close> lays the snake on (1, 0), (0, 0), (-1, 0);
  with the food drawn at (2, 0), one tick eats it, and the next food is drawn at (3, 0).
  In the state reached, the new head (3, 0) is inside the grid, on no segment and on the
  food, but the grown snake covers all four cells, every draw is rejected, and
  \<^verbatim>\<open>update()\<close> never returns.
\<close>

lemma lane_first_food:
  "initGame lane halves 0 globals0
     = Some (halves, playing [(1, 0), (0, 0), (-1, 0)] (1, 0) (Some (2, 0)))"
proof -
  have "placeFood_loop lane (set [(1, 0), (0, 0), (-1, 0)]) halves = Some ((2, 0), halves)"
    using placeFood_loop_free [of lane halves "set [(1, 0), (0, 0), (-1, 0)]"]
    by (simp add: lane_draws)
  then show ?thesis
    by (simp add: initGame_def placeFood_def globals0_def playing_def lane_grid)
qed

lemma lane_second_food:
  "update lane three_quarters (playing [(1, 0), (0, 0), (-1, 0)] (1, 0) (Some (2, 0)))
     = Some (Inr (three_quarters,
         (playing [(2, 0), (1, 0), (0, 0), (-1, 0)] (1, 0) (Some (3, 0)))\<lparr>score := 1\<rparr>))"
proof -
  have "placeFood_loop lane (set [(2, 0), (1, 0), (0, 0), (-1, 0)]) three_quarters
      = Some ((3, 0), three_quarters)"
    using placeFood_loop_free [of lane three_quarters "set [(2, 0), (1, 0), (0, 0), (-1, 0)]"]
    by (simp add: lane_draws)
  then show ?thesis
    by (simp add: update_def placeFood_def playing_def lane_grid Let_def)
qed

lemma lane_reachable:
  "reachable lane ((playing [(2, 0), (1, 0), (0, 0), (-1, 0)] (1, 0) (Some (3, 0)))\<lparr>score := 1\<rparr>)"
proof -
  have "reachable lane (playing [(1, 0), (0, 0), (-1, 0)] (1, 0) (Some (2, 0)))"
    using lane_first_food by (rule reach_init)
  moreover have "call lane (playing [(1, 0), (0, 0), (-1, 0)] (1, 0) (Some (2, 0)))
      ((playing [(2, 0), (1, 0), (0, 0), (-1, 0)] (1, 0) (Some (3, 0)))\<lparr>score := 1\<rparr>)"
    using lane_second_food by (rule call_update)
  ultimately show ?thesis by (rule reach_call)
qed

theorem update_eats_food_counterexample:
  "reachable lane ((playing [(2, 0), (1, 0), (0, 0), (-1, 0)] (1, 0) (Some (3, 0)))\<lparr>score := 1\<rparr>)
   \<and> running ((playing [(2, 0), (1, 0), (0, 0), (-1, 0)] (1, 0) (Some (3, 0)))\<lparr>score := 1\<rparr>)
   \<and> \<not> paused ((playing [(2, 0), (1, 0), (0, 0), (-1, 0)] (1, 0) (Some (3, 0)))\<lparr>score := 1\<rparr>)
   \<and> \<not> gameOver ((playing [(2, 0), (1, 0), (0, 0), (-1, 0)] (1, 0) (Some (3, 0)))\<lparr>score := 1\<rparr>)
   \<and> newHead (2, 0) ((playing [(2, 0), (1, 0), (0, 0), (-1, 0)] (1, 0) (Some (3, 0)))\<lparr>score := 1\<rparr>)
     = (3, 0)
   \<and> inside lane (3, 0)
   \<and> (3, 0) \<notin> set (snake ((playing [(2, 0), (1, 0), (0, 0), (-1, 0)] (1, 0) (Some (3, 0)))\<lparr>score := 1\<rparr>))
   \<and> food ((playing [(2, 0), (1, 0), (0, 0), (-1, 0)] (1, 0) (Some (3, 0)))\<lparr>score := 1\<rparr>)
     = Some (3, 0)
   \<and> unit_interval zeros
   \<and> update lane zeros ((playing [(2, 0), (1, 0), (0, 0), (-1, 0)] (1, 0) (Some (3, 0)))\<lparr>score := 1\<rparr>)
     = None"
proof -
  let ?s = "(playing [(2, 0), (1, 0), (0, 0), (-1, 0)] (1, 0) (Some (3, 0)))\<lparr>score := 1\<rparr>"
  have nh: "newHead (2, 0) ?s = (3, 0)"
    by (simp add: newHead_def playing_def)
  have pre: "running ?s" "\<not> paused ?s" "\<not> gameOver ?s"
    "snake ?s = (2, 0) # [(1, 0), (0, 0), (-1, 0)]"
    "inside lane (newHead (2, 0) ?s)"
    "newHead (2, 0) ?s \<notin> set (snake ?s)"
    "food ?s = Some (newHead (2, 0) ?s)"
    unfolding nh by (simp_all add: playing_def inside_def lane_grid)
  have "placeFood lane zeros
      (?s\<lparr>dir := nextDir ?s, snake := newHead (2, 0) ?s # snake ?s, score := score ?s + 1\<rparr>) = None"
    by (rule placeFood_never) (simp add: lane_zeros nh playing_def)
  with update_eating [OF pre, of zeros] have none: "update lane zeros ?s = None"
    by simp
  have u: "unit_interval zeros"
    by (simp add: unit_interval_def zeros_def)
  from pre(1-3,5-7) [unfolded nh] nh lane_reachable u none show ?thesis by blast
qed

section \<open>The accumulator\<close>

lemma step_positive: "0 < step"
  by (simp add: step_def SPEED_def)

lemma drain_upper:
  assumes "drain env r s = Some (Inr (r', s'))"
  shows "accumulator s' < step"
proof -
  have "True \<and> accumulator s' < step"
    using assms by (rule drain_invariant [where I = "\<lambda>s. True"]) simp_all
  then show ?thesis by simp
qed

lemma drain_nonneg:
  assumes "drain env r s = Some (Inr (r', s'))" and "0 \<le> accumulator s" and "keeps_sign env"
  shows "0 \<le> accumulator s'"
proof -
  have "0 \<le> accumulator s' \<and> accumulator s' < step"
    using assms(1,2)
  proof (rule drain_invariant [where I = "\<lambda>s. 0 \<le> accumulator s"])
    fix r s r1 s1
    assume "step \<le> accumulator s" and u: "update env r s = Some (Inr (r1, s1))"
    with update_accumulator [OF u] have "0 \<le> accumulator s1 - step" by simp
    with assms(3) have "0 \<le> rnd env (accumulator s1 - step)"
      by (simp add: keeps_sign_def)
    then show "0 \<le> accumulator (s1\<lparr>accumulator := rnd env (accumulator s1 - step)\<rparr>)"
      by simp
  qed
  then show ?thesis by simp
qed

lemma gameLoop_upper:
  assumes "gameLoop env r time s = Some (Inr (r', s'))" and "accumulator s < step"
  shows "accumulator s' < step"
proof (cases "running s \<and> \<not> paused s")
  case True
  with assms(1) have "drain env r (s\<lparr>lastTime := time,
      accumulator := rnd env (accumulator s + rnd env (rnd env (time - lastTime s) / 1000))\<rparr>)
      = Some (Inr (r', s'))"
    by (simp add: gameLoop_def Let_def)
  then show ?thesis by (rule drain_upper)
next
  case False
  with assms show ?thesis by (auto simp: gameLoop_def split: if_splits)
qed

lemma gameLoop_nonneg:
  assumes "gameLoop env r time s = Some (Inr (r', s'))" and "0 \<le> accumulator s"
    and "lastTime s \<le> time" and "keeps_sign env"
  shows "0 \<le> accumulator s'"
proof (cases "running s \<and> \<not> paused s")
  case True
  let ?a = "rnd env (accumulator s + rnd env (rnd env (time - lastTime s) / 1000))"
  from True assms(1) have d: "drain env r (s\<lparr>lastTime := time, accumulator := ?a\<rparr>)
      = Some (Inr (r', s'))"
    by (simp add: gameLoop_def Let_def)
  from assms(3,4) have "0 \<le> rnd env (time - lastTime s)"
    by (simp add: keeps_sign_def)
  then have "0 \<le> rnd env (time - lastTime s) / 1000" by simp
  with assms(4) have "0 \<le> rnd env (rnd env (time - lastTime s) / 1000)"
    unfolding keeps_sign_def by blast
  with assms(2) have "0 \<le> accumulator s + rnd env (rnd env (time - lastTime s) / 1000)"
    by simp
  with assms(4) have "0 \<le> ?a"
    unfolding keeps_sign_def by blast
  then have "0 \<le> accumulator (s\<lparr>lastTime := time, accumulator := ?a\<rparr>)" by simp
  with d show ?thesis using assms(4) by (rule drain_nonneg)
next
  case False
  with assms show ?thesis by (auto simp: gameLoop_def split: if_splits)
qed

lemma call_accumulator:
  assumes "call env s s'"
  shows "accumulator s' = accumulator s \<or> accumulator s' = 0"
  using assms
proof (cases rule: call.cases)
  case (call_update r r')
  from update_accumulator [OF this] show ?thesis by simp
next
  case (call_setDirection action)
  then show ?thesis by (simp add: setDirection_fields)
next
  case (call_togglePause now)
  then show ?thesis by (simp add: togglePause_fields)
next
  case (call_restartGame r now r')
  then have "accumulator s' = 0"
    by (auto simp: restartGame_def dest: initGame_result)
  then show ?thesis by simp
next
  case (call_placeFood r r')
  from placeFood_frame [OF this] show ?thesis by auto
qed

lemma reachable_upper: "reachable env s \<Longrightarrow> accumulator s < step"
proof (induction rule: reachable.induct)
  case (reach_init r now r' s)
  from initGame_result [OF this] show ?case by (simp add: step_positive)
next
  case (reach_call s s')
  from call_accumulator [OF reach_call(2)] reach_call(3) show ?case
    by (auto simp: step_positive)
next
  case (reach_frame s r time r' s')
  from reach_frame(2,3) show ?case by (rule gameLoop_upper)
qed

lemma reachable_forward_reachable: "reachable_forward env s \<Longrightarrow> reachable env s"
proof (induction rule: reachable_forward.induct)
  case (forward_init r now r' s)
  then show ?case by (rule reach_init)
next
  case (forward_call s s')
  from forward_call(3,2) show ?case by (rule reach_call)
next
  case (forward_frame s time r r' s')
  from forward_frame(4,3) show ?case by (rule reach_frame)
qed

lemma reachable_forward_nonneg:
  assumes "keeps_sign env"
  shows "reachable_forward env s \<Longrightarrow> 0 \<le> accumulator s"
proof (induction rule: reachable_forward.induct)
  case (forward_init r now r' s)
  from initGame_result [OF this] show ?case by simp
next
  case (forward_call s s')
  from call_accumulator [OF forward_call(2)] forward_call(3) show ?case by auto
next
  case (forward_frame s time r r' s')
  from forward_frame(3,4,2) assms show ?case by (rule gameLoop_nonneg)
qed

text \<open>
  C4, as the code has it. The accumulator is 0 right after \<^verbatim>\<open>initGame()\<close> and
  \<^verbatim>\<open>restartGame()\<close>. It is below \<open>step\<close> in every reachable state, and after every
  \<^verbatim>\<open>gameLoop(time)\<close> that starts with it below \<open>step\<close>, whatever the timestamp. It is
  also at least 0 as long as no frame callback receives a timestamp earlier than the
  stored \<^verbatim>\<open>lastTime\<close>: in every state so reached, and after every \<^verbatim>\<open>gameLoop(time)\<close>
  with \<open>time \<ge> lastTime\<close> that starts with it at least 0. The lower bound uses that
  rounding a non-negative number gives a non-negative number.
\<close>

theorem accumulator_in_range:
  "(reachable env s \<longrightarrow> accumulator s < step)
   \<and> (keeps_sign env \<and> reachable_forward env s \<longrightarrow> 0 \<le> accumulator s \<and> accumulator s < step)
   \<and> (initGame env r now s = Some (r', s') \<longrightarrow> accumulator s' = 0)
   \<and> (restartGame env r now s = Some (r', s') \<longrightarrow> accumulator s' = 0)
   \<and> (accumulator s < step \<and> gameLoop env r time s = Some (Inr (r', s'))
        \<longrightarrow> accumulator s' < step)
   \<and> (keeps_sign env \<and> 0 \<le> accumulator s \<and> lastTime s \<le> time
        \<and> gameLoop env r time s = Some (Inr (r', s'))
        \<longrightarrow> 0 \<le> accumulator s')"
  using reachable_upper [of env s] reachable_forward_nonneg [of env s]
    reachable_forward_reachable [of env s] initGame_result [of env r now s r' s']
    gameLoop_upper [of env r time s r' s'] gameLoop_nonneg [of env r time s r' s']
  by (simp add: restartGame_def)

lemma board_exact: "rnd board x = x"
  by (simp add: board_def exact_def)

lemma update_stepped_move:
  "update board zeros ((started now (0, 0))\<lparr>snake := [(15, 15), (14, 15), (13, 15)],
       accumulator := a\<rparr>)
     = Some (Inr (zeros, (started now (0, 0))\<lparr>snake := [(16, 15), (15, 15), (14, 15)],
         accumulator := a\<rparr>))"
  by (simp add: update_def started_def playing_def board_grid Let_def)

lemma gameLoop_started_one_tick:
  "gameLoop board zeros (375 / 2) (started 0 (0, 0))
     = Some (Inr (zeros, (started (375 / 2) (0, 0))\<lparr>snake := [(15, 15), (14, 15), (13, 15)],
         accumulator := 1 / 16\<rparr>))"
proof -
  let ?s1 = "(started (375 / 2) (0, 0))\<lparr>accumulator := 3 / 16\<rparr>"
  let ?s2 = "(started (375 / 2) (0, 0))\<lparr>snake := [(15, 15), (14, 15), (13, 15)],
    accumulator := 1 / 16\<rparr>"
  have g: "gameLoop board zeros (375 / 2) (started 0 (0, 0)) = drain board zeros ?s1"
    by (simp add: gameLoop_def started_def playing_def Let_def board_exact)
  have d2: "drain board zeros ?s2 = Some (Inr (zeros, ?s2))"
    by (subst drain.simps) (simp add: step_def SPEED_def)
  have "drain board zeros ?s1 = drain board zeros ?s2"
    by (subst drain.simps) (simp add: step_def SPEED_def update_started_move board_exact)
  with g d2 show ?thesis by simp
qed

lemma reachable_forward_stepped:
  "reachable_forward board ((started (375 / 2) (0, 0))\<lparr>snake := [(15, 15), (14, 15), (13, 15)],
     accumulator := 1 / 16\<rparr>)"
proof -
  have "reachable_forward board (started 0 (0, 0))"
    using initGame_zeros by (rule forward_init)
  moreover have "lastTime (started 0 (0, 0)) \<le> 375 / 2"
    by (simp add: started_def playing_def)
  ultimately show ?thesis
    using gameLoop_started_one_tick by (rule forward_frame)
qed

theorem accumulator_in_range_witness:
  "reachable_forward board (started 0 (0, 0))
   \<and> gameLoop board zeros (375 / 2) (started 0 (0, 0))
     = Some (Inr (zeros, (started (375 / 2) (0, 0))\<lparr>snake := [(15, 15), (14, 15), (13, 15)],
         accumulator := 1 / 16\<rparr>))
   \<and> 0 \<le> accumulator ((started (375 / 2) (0, 0))\<lparr>snake := [(15, 15), (14, 15), (13, 15)],
         accumulator := 1 / 16\<rparr>)
   \<and> accumulator ((started (375 / 2) (0, 0))\<lparr>snake := [(15, 15), (14, 15), (13, 15)],
         accumulator := 1 / 16\<rparr>) < step"
proof -
  let ?s = "started 0 (0, 0)"
  let ?s' = "(started (375 / 2) (0, 0))\<lparr>snake := [(15, 15), (14, 15), (13, 15)],
         accumulator := 1 / 16\<rparr>"
  have reach: "reachable_forward board ?s"
    using initGame_zeros by (rule forward_init)
  have k: "keeps_sign board"
    by (simp add: keeps_sign_def board_exact)
  have pre: "accumulator ?s < step \<and> 0 \<le> accumulator ?s \<and> lastTime ?s \<le> 375 / 2"
    by (simp add: started_def playing_def step_positive)
  from accumulator_in_range [of board ?s zeros 0 zeros ?s' "375 / 2"] k pre
    gameLoop_started_one_tick
  have "0 \<le> accumulator ?s' \<and> accumulator ?s' < step" by blast
  with reach gameLoop_started_one_tick show ?thesis by blast
qed

text \<open>
  C4 as stated fails for a timestamp earlier than \<^verbatim>\<open>lastTime\<close>: the game is started at
  clock value 1000 and the first frame callback receives the timestamp 937.5, the start of
  a frame that began 62.5 milliseconds earlier. The elapsed time is \<open>-1/16\<close> of a second,
  no tick runs, and the accumulator is left at \<open>-1/16\<close>. Every number here is a binary64
  number, so nothing is rounded.
\<close>

theorem accumulator_negative_counterexample:
  "initGame board zeros 1000 globals0 = Some (zeros, started 1000 (0, 0))
   \<and> gameLoop board zeros (1875 / 2) (started 1000 (0, 0))
     = Some (Inr (zeros, (started (1875 / 2) (0, 0))\<lparr>accumulator := - (1 / 16)\<rparr>))
   \<and> \<not> 0 \<le> accumulator ((started (1875 / 2) (0, 0))\<lparr>accumulator := - (1 / 16)\<rparr>)"
proof -
  have "gameLoop board zeros (1875 / 2) (started 1000 (0, 0))
      = drain board zeros ((started (1875 / 2) (0, 0))\<lparr>accumulator := - (1 / 16)\<rparr>)"
    by (simp add: gameLoop_def started_def playing_def Let_def board_exact)
  also have "\<dots> = Some (Inr (zeros, (started (1875 / 2) (0, 0))\<lparr>accumulator := - (1 / 16)\<rparr>))"
    by (subst drain.simps) (simp add: step_def SPEED_def)
  finally show ?thesis using initGame_zeros [of 1000] by simp
qed

section \<open>Pause and resumption\<close>

text \<open>
  C8, as the code has it. In a state that is not over, two calls of \<^verbatim>\<open>togglePause()\<close>
  in a row bring the \<^verbatim>\<open>paused\<close> flag back to its value and change nothing but the
  clock reference \<^verbatim>\<open>lastTime\<close>. The accumulator is not reset: it keeps the residue it
  had. If the game was paused before, it is paused again and the next frame runs no tick.
  If it was running, \<^verbatim>\<open>lastTime\<close> is the time \<open>n2\<close> of the resumption, so the next
  frame \<^verbatim>\<open>gameLoop(t)\<close> adds to the accumulator the time elapsed since \<open>n2\<close> only,
  whatever the length of the pause and the value of \<^verbatim>\<open>lastTime\<close> before it; it runs no
  tick when the sum stays below \<open>step\<close>, and a frame at the very time of the resumption
  runs none.
\<close>

theorem togglePause_twice:
  assumes "\<not> gameOver s"
  shows "paused (togglePause n2 (togglePause n1 s)) = paused s
    \<and> accumulator (togglePause n2 (togglePause n1 s)) = accumulator s
    \<and> togglePause n2 (togglePause n1 s) = s\<lparr>lastTime := (if paused s then n1 else n2)\<rparr>
    \<and> (paused s \<longrightarrow> gameLoop env r t (togglePause n2 (togglePause n1 s))
          = Some (Inr (r, togglePause n2 (togglePause n1 s))))
    \<and> (\<not> paused s \<and> running s \<longrightarrow> gameLoop env r t (togglePause n2 (togglePause n1 s))
          = drain env r (s\<lparr>lastTime := t,
              accumulator := rnd env (accumulator s + rnd env (rnd env (t - n2) / 1000))\<rparr>))
    \<and> (\<not> paused s \<and> running s
          \<and> rnd env (accumulator s + rnd env (rnd env (t - n2) / 1000)) < step
          \<longrightarrow> gameLoop env r t (togglePause n2 (togglePause n1 s))
            = Some (Inr (r, s\<lparr>lastTime := t,
                accumulator := rnd env (accumulator s + rnd env (rnd env (t - n2) / 1000))\<rparr>)))
    \<and> (\<not> paused s \<and> running s \<and> accumulator s < step
          \<and> rnd env 0 = 0 \<and> rnd env (accumulator s) = accumulator s
          \<longrightarrow> gameLoop env r n2 (togglePause n2 (togglePause n1 s))
            = Some (Inr (r, s\<lparr>lastTime := n2\<rparr>)))"
proof -
  have tt: "togglePause n2 (togglePause n1 s) = s\<lparr>lastTime := (if paused s then n1 else n2)\<rparr>"
    using assms by (cases "paused s") (simp_all add: togglePause_def Let_def)
  have idle: "gameLoop env r t (s\<lparr>lastTime := n1\<rparr>) = Some (Inr (r, s\<lparr>lastTime := n1\<rparr>))"
    if "paused s"
    using that by (simp add: gameLoop_def)
  have resume: "gameLoop env r t (s\<lparr>lastTime := n2\<rparr>)
      = drain env r (s\<lparr>lastTime := t,
          accumulator := rnd env (accumulator s + rnd env (rnd env (t - n2) / 1000))\<rparr>)"
    if "\<not> paused s" and "running s" for t
    using that by (simp add: gameLoop_def Let_def)
  have none: "drain env r (s\<lparr>lastTime := t, accumulator := a\<rparr>)
      = Some (Inr (r, s\<lparr>lastTime := t, accumulator := a\<rparr>))" if "a < step" for a t
    using that by (subst drain.simps) simp
  have at_once: "gameLoop env r n2 (s\<lparr>lastTime := n2\<rparr>) = Some (Inr (r, s\<lparr>lastTime := n2\<rparr>))"
    if "\<not> paused s" and "running s" and "accumulator s < step"
      and "rnd env 0 = 0" and "rnd env (accumulator s) = accumulator s"
  proof -
    from that have "gameLoop env r n2 (s\<lparr>lastTime := n2\<rparr>)
        = drain env r (s\<lparr>lastTime := n2, accumulator := accumulator s\<rparr>)"
      by (simp add: resume)
    also from that(3) have "\<dots> = Some (Inr (r, s\<lparr>lastTime := n2, accumulator := accumulator s\<rparr>))"
      by (rule none)
    finally show ?thesis by simp
  qed
  show ?thesis
    unfolding tt using idle resume none at_once by simp
qed

theorem togglePause_twice_witness:
  "paused (togglePause 61000 (togglePause 1000 (started 0 (0, 0)))) = paused (started 0 (0, 0))
   \<and> gameLoop board zeros (122125 / 2) (togglePause 61000 (togglePause 1000 (started 0 (0, 0))))
     = Some (Inr (zeros, (started 0 (0, 0))\<lparr>lastTime := 122125 / 2, accumulator := 1 / 16\<rparr>))
   \<and> gameLoop board zeros 61000 (togglePause 61000 (togglePause 1000 (started 0 (0, 0))))
     = Some (Inr (zeros, (started 0 (0, 0))\<lparr>lastTime := 61000\<rparr>))"
proof -
  let ?s = "started 0 (0, 0)"
  have pre: "\<not> gameOver ?s"
    by (simp add: started_def playing_def)
  have acc: "rnd board (accumulator ?s + rnd board (rnd board (122125 / 2 - 61000) / 1000)) = 1 / 16"
    by (simp add: started_def playing_def board_exact)
  have later: "\<not> paused ?s \<and> running ?s
      \<and> rnd board (accumulator ?s + rnd board (rnd board (122125 / 2 - 61000) / 1000)) < step"
    unfolding acc by (simp add: started_def playing_def step_def SPEED_def)
  have at_once: "\<not> paused ?s \<and> running ?s \<and> accumulator ?s < step
      \<and> rnd board 0 = 0 \<and> rnd board (accumulator ?s) = accumulator ?s"
    by (simp add: started_def playing_def step_positive board_exact)
  note th1 = togglePause_twice [OF pre, of 61000 1000 board zeros "122125 / 2"]
  from th1 have 1: "paused (togglePause 61000 (togglePause 1000 ?s)) = paused ?s"
    by (rule conjunct1)
  from th1 later have "gameLoop board zeros (122125 / 2) (togglePause 61000 (togglePause 1000 ?s))
      = Some (Inr (zeros, ?s\<lparr>lastTime := 122125 / 2,
          accumulator := rnd board (accumulator ?s
            + rnd board (rnd board (122125 / 2 - 61000) / 1000))\<rparr>))"
    by blast
  then have 2: "gameLoop board zeros (122125 / 2) (togglePause 61000 (togglePause 1000 ?s))
      = Some (Inr (zeros, ?s\<lparr>lastTime := 122125 / 2, accumulator := 1 / 16\<rparr>))"
    unfolding acc .
  from th1 at_once have 3: "gameLoop board zeros 61000 (togglePause 61000 (togglePause 1000 ?s))
      = Some (Inr (zeros, ?s\<lparr>lastTime := 61000\<rparr>))"
    by blast
  from 1 2 3 show ?thesis by blast
qed

text \<open>
  C8 as stated fails in its second half: tick accumulation does not resume from zero.
  The game is started at clock value 0 and a frame at 187.5 leaves the accumulator at
  \<open>1/16\<close>. The game is paused at 1000 and resumed at 61000: the accumulator is still
  \<open>1/16\<close>. A frame 62.5 milliseconds after the resumption, half a step, adds \<open>1/16\<close>,
  the accumulator reaches \<open>step\<close> and a tick runs. Every number here is a binary64
  number, so nothing is rounded.
\<close>

theorem togglePause_twice_counterexample:
  "reachable board ((started (375 / 2) (0, 0))\<lparr>snake := [(15, 15), (14, 15), (13, 15)],
     accumulator := 1 / 16\<rparr>)
   \<and> \<not> gameOver ((started (375 / 2) (0, 0))\<lparr>snake := [(15, 15), (14, 15), (13, 15)],
     accumulator := 1 / 16\<rparr>)
   \<and> accumulator (togglePause 61000 (togglePause 1000
       ((started (375 / 2) (0, 0))\<lparr>snake := [(15, 15), (14, 15), (13, 15)],
          accumulator := 1 / 16\<rparr>))) = 1 / 16
   \<and> gameLoop board zeros (122125 / 2) (togglePause 61000 (togglePause 1000
       ((started (375 / 2) (0, 0))\<lparr>snake := [(15, 15), (14, 15), (13, 15)],
          accumulator := 1 / 16\<rparr>)))
     = Some (Inr (zeros, (started (122125 / 2) (0, 0))\<lparr>snake := [(16, 15), (15, 15), (14, 15)],
         accumulator := 0\<rparr>))"
proof -
  let ?s = "(started (375 / 2) (0, 0))\<lparr>snake := [(15, 15), (14, 15), (13, 15)],
     accumulator := 1 / 16\<rparr>"
  let ?s1 = "(started (122125 / 2) (0, 0))\<lparr>snake := [(15, 15), (14, 15), (13, 15)],
     accumulator := 1 / 8\<rparr>"
  let ?s2 = "(started (122125 / 2) (0, 0))\<lparr>snake := [(16, 15), (15, 15), (14, 15)],
     accumulator := 0\<rparr>"
  have 1: "reachable board ?s"
    using reachable_forward_stepped by (rule reachable_forward_reachable)
  have 2: "\<not> gameOver ?s"
    by (simp add: started_def playing_def)
  have tt: "togglePause 61000 (togglePause 1000 ?s) = ?s\<lparr>lastTime := 61000\<rparr>"
    by (simp add: togglePause_def Let_def started_def playing_def)
  have 3: "accumulator (togglePause 61000 (togglePause 1000 ?s)) = 1 / 16"
    unfolding tt by simp
  have g: "gameLoop board zeros (122125 / 2) (?s\<lparr>lastTime := 61000\<rparr>) = drain board zeros ?s1"
    by (simp add: gameLoop_def started_def playing_def Let_def board_exact)
  have d2: "drain board zeros ?s2 = Some (Inr (zeros, ?s2))"
    by (subst drain.simps) (simp add: step_def SPEED_def)
  have "drain board zeros ?s1 = drain board zeros ?s2"
    by (subst drain.simps) (simp add: step_def SPEED_def update_stepped_move board_exact)
  with g d2 have 4: "gameLoop board zeros (122125 / 2) (togglePause 61000 (togglePause 1000 ?s))
      = Some (Inr (zeros, ?s2))"
    unfolding tt by simp
  from 1 2 3 4 show ?thesis by blast
qed

end
